theory Spec2Isabelle
  imports Main
begin

section \<open>Bytes and the library primitives the cleaner calls\<close>

text \<open>
  A \<^verbatim>\<open>std::string\<close> is a list of bytes (\<^typ>\<open>string\<close>). The cleaner works on raw
  bytes throughout (both streams are opened with \<^verbatim>\<open>std::ios::binary\<close>).
\<close>

abbreviation LF :: char where "LF \<equiv> CHR 0x0A"
abbreviation CR :: char where "CR \<equiv> CHR 0x0D"
abbreviation QUOTE :: char where "QUOTE \<equiv> CHR 0x22"
abbreviation COMMA :: char where "COMMA \<equiv> CHR 0x2C"

text \<open>
  What can end a run abnormally: \<^verbatim>\<open>std::out_of_range\<close>, thrown by
  \<^verbatim>\<open>std::string::substr\<close> when the start position lies beyond the end of the string, and
  the bus error raised when a mapped file is read after it has been truncated.
\<close>

datatype failure = OutOfRange | BusError

text \<open>The argument \<^verbatim>\<open>" \t\r\n"\<close> of both searches in \<^verbatim>\<open>trim\<close>.\<close>

definition trim_chars :: string where
  "trim_chars = [CHR 0x20, CHR 0x09, CHR 0x0D, CHR 0x0A]"

text \<open>
  \<^verbatim>\<open>std::isspace\<close> in the "C" locale (the program never changes the locale): space,
  \<^verbatim>\<open>\t \n \v \f \r\<close>. Bytes from 0x80 on are not whitespace (where \<^verbatim>\<open>char\<close> is signed
  the call is formally undefined for them; the usual C libraries answer no).
\<close>

definition isspace :: "char \<Rightarrow> bool" where
  "isspace c = (c = CHR 0x20 \<or> c = CHR 0x09 \<or> c = CHR 0x0A \<or> c = CHR 0x0B
                \<or> c = CHR 0x0C \<or> c = CHR 0x0D)"

text \<open>
  \<^verbatim>\<open>str.find_first_not_of(cs)\<close> and \<^verbatim>\<open>str.find_last_not_of(cs)\<close>: the first (last) index
  whose character is not in \<open>cs\<close>; \<open>None\<close> stands for \<^verbatim>\<open>std::string::npos\<close>.
\<close>

fun find_first_not_of :: "string \<Rightarrow> string \<Rightarrow> nat option" where
  "find_first_not_of [] cs = None"
| "find_first_not_of (c # s) cs =
     (if c \<in> set cs then map_option Suc (find_first_not_of s cs) else Some 0)"

fun find_last_not_of :: "string \<Rightarrow> string \<Rightarrow> nat option" where
  "find_last_not_of [] cs = None"
| "find_last_not_of (c # s) cs =
     (case find_last_not_of s cs of
        Some i \<Rightarrow> Some (Suc i)
      | None \<Rightarrow> (if c \<in> set cs then None else Some 0))"

text \<open>
  \<^verbatim>\<open>str.substr(pos, n)\<close>: throws when \<open>pos\<close> exceeds the size, otherwise the at most
  \<open>n\<close> characters from \<open>pos\<close> on.
\<close>

definition substr :: "string \<Rightarrow> nat \<Rightarrow> nat \<Rightarrow> failure + string" where
  "substr s pos n = (if length s < pos then Inl OutOfRange else Inr (take n (drop pos s)))"

section \<open>Field cleaning\<close>

text \<open>
  \<^verbatim>\<open>trim\<close>. Were \<^verbatim>\<open>find_last_not_of\<close> to return \<^verbatim>\<open>npos\<close> after
  \<^verbatim>\<open>find_first_not_of\<close> found an index, the count \<^verbatim>\<open>end - start + 1\<close> would be computed
  in 64-bit \<^verbatim>\<open>size_t\<close> arithmetic from \<open>npos = 2^64 - 1\<close>; that branch is kept as written.
\<close>

definition trim :: "string \<Rightarrow> failure + string" where
  "trim str =
     (case find_first_not_of str trim_chars of
        None \<Rightarrow> Inr []
      | Some start \<Rightarrow>
          (case find_last_not_of str trim_chars of
             Some endp \<Rightarrow> substr str start (endp - start + 1)
           | None \<Rightarrow> substr str start ((2 ^ 64 - 1 - start + 1) mod 2 ^ 64)))"

text \<open>\<^verbatim>\<open>cleanField\<close>: trim, strip one enclosing pair of quotes, replace placeholders by "0".\<close>

definition cleanField :: "string \<Rightarrow> failure + string" where
  "cleanField field =
     (case trim field of
        Inl e \<Rightarrow> Inl e
      | Inr trimmed0 \<Rightarrow>
          (case (if 2 \<le> length trimmed0 \<and> hd trimmed0 = QUOTE \<and> last trimmed0 = QUOTE
                 then substr trimmed0 1 (length trimmed0 - 2)
                 else Inr trimmed0) of
             Inl e \<Rightarrow> Inl e
           | Inr trimmed \<Rightarrow>
               (if trimmed = ''-'' \<or> trimmed = ''--'' \<or> trimmed = []
                   \<or> list_all isspace trimmed
                then Inr ''0''
                else Inr trimmed)))"

text \<open>Cleaning an already cleaned field once more (an exception of the first pass propagates).\<close>

definition cleanField_twice :: "string \<Rightarrow> failure + string" where
  "cleanField_twice f = (case cleanField f of Inl e \<Rightarrow> Inl e | Inr c \<Rightarrow> cleanField c)"

subsection \<open>The cleaning algorithm as the specification words it\<close>

text \<open>
  Step 1 of the specification: remove leading and trailing characters that are space, tab,
  carriage return or newline.
\<close>

definition spec_trim_char :: "char \<Rightarrow> bool" where
  "spec_trim_char c = (c = CHR 0x20 \<or> c = CHR 0x09 \<or> c = CR \<or> c = LF)"

definition spec_trim :: "string \<Rightarrow> string" where
  "spec_trim s = rev (dropWhile spec_trim_char (rev (dropWhile spec_trim_char s)))"

text \<open>Step 2: an enclosing pair of double quotes is stripped once, when the length is at least 2.\<close>

definition spec_quoted :: "string \<Rightarrow> bool" where
  "spec_quoted t = (2 \<le> length t \<and> hd t = QUOTE \<and> last t = QUOTE)"

definition spec_unquote :: "string \<Rightarrow> string" where
  "spec_unquote t = (if spec_quoted t then butlast (tl t) else t)"

text \<open>
  Step 3 speaks of a result that "consists entirely of whitespace" without listing the
  characters; it is read as the usual ASCII whitespace class (space and the five control
  characters 0x09 to 0x0D).
\<close>

definition spec_whitespace :: "char \<Rightarrow> bool" where
  "spec_whitespace c = (c \<in> set [CHR 0x20, CHR 0x09, CHR 0x0A, CHR 0x0B, CHR 0x0C, CHR 0x0D])"

text \<open>Steps 3 and 4: the sentinel for empty, blank and dash values, the value itself otherwise.\<close>

definition spec_clean :: "string \<Rightarrow> string" where
  "spec_clean f =
     (let u = spec_unquote (spec_trim f)
      in if u = [] \<or> list_all spec_whitespace u \<or> u = ''-'' \<or> u = ''--'' then ''0'' else u)"

section \<open>Input streams and record parsing\<close>

text \<open>
  An input stream (\<^verbatim>\<open>std::stringstream\<close> as well as \<^verbatim>\<open>std::ifstream\<close> in binary mode): the
  characters not yet read and the two state bits the loops test. \<^verbatim>\<open>badbit\<close> is never set
  on these paths and is left out.
\<close>

record istream =
  chars :: string
  eofbit :: bool
  failbit :: bool

definition istream_on :: "string \<Rightarrow> istream" where
  "istream_on s = \<lparr>chars = s, eofbit = False, failbit = False\<rparr>"

text \<open>
  \<^verbatim>\<open>std::getline(strm, str, delim)\<close>. The sentry fails on a stream that is not good and only
  sets \<^verbatim>\<open>failbit\<close>, leaving \<open>str\<close> alone. Otherwise \<open>str\<close> is erased and characters are moved
  into it until end of input (\<^verbatim>\<open>eofbit\<close>) or until the delimiter, which is consumed and not
  stored. When nothing at all was extracted, \<^verbatim>\<open>failbit\<close> is set. (The \<^verbatim>\<open>max_size\<close> limit of
  a string is not modelled.)
\<close>

definition getline :: "istream \<Rightarrow> string \<Rightarrow> char \<Rightarrow> istream \<times> string" where
  "getline strm str delim =
     (if eofbit strm \<or> failbit strm then (strm\<lparr>failbit := True\<rparr>, str)
      else if delim \<in> set (chars strm)
      then (strm\<lparr>chars := tl (dropWhile (\<lambda>c. c \<noteq> delim) (chars strm))\<rparr>,
            takeWhile (\<lambda>c. c \<noteq> delim) (chars strm))
      else (\<lparr>chars = [], eofbit = True, failbit = (chars strm = [])\<rparr>, chars strm))"

text \<open>
  The loop of \<^verbatim>\<open>parseCSVLine\<close>: \<^verbatim>\<open>while (std::getline(ss, field, ','))\<close> runs as long as the
  stream has not failed, and pushes the cleaned field.
\<close>

function parse_loop :: "istream \<Rightarrow> string \<Rightarrow> string list \<Rightarrow> failure + string list" where
  "parse_loop ss field flds =
     (case getline ss field COMMA of
        (ss', field') \<Rightarrow>
          if failbit ss' then Inr flds
          else (case cleanField field' of
                  Inl e \<Rightarrow> Inl e
                | Inr c \<Rightarrow> parse_loop ss' field' (flds @ [c])))"
  by pat_completeness auto
termination
proof (relation "measure (\<lambda>(ss, field, flds). length (chars ss) + (if eofbit ss then 0 else 1))")
  show "wf (measure (\<lambda>(ss, field, flds). length (chars ss) + (if eofbit ss then 0 else 1)))"
    by simp
next
  fix ss :: istream and field :: string and flds :: "string list" and ss' field' c
  assume g: "(ss', field') = getline ss field COMMA" and nf: "\<not> failbit ss'"
    and "cleanField field' = Inr c"
  let ?r = "dropWhile (\<lambda>c. c \<noteq> COMMA) (chars ss)"
  have good: "\<not> eofbit ss" "\<not> failbit ss"
    using g nf by (auto simp: getline_def split: if_splits)
  have "length (chars ss') + (if eofbit ss' then 0 else 1) < length (chars ss) + 1"
  proof (cases "COMMA \<in> set (chars ss)")
    case False
    then have "ss' = \<lparr>chars = [], eofbit = True, failbit = (chars ss = [])\<rparr>"
      using g good by (simp add: getline_def)
    then show ?thesis by simp
  next
    case True
    then have "ss' = ss\<lparr>chars := tl ?r\<rparr>"
      using g good by (simp add: getline_def)
    moreover have "?r \<noteq> []" using True by simp
    then have "length (tl ?r) < length (chars ss)"
      using length_dropWhile_le[of "\<lambda>c. c \<noteq> COMMA" "chars ss"]
      by (cases ?r) auto
    ultimately show ?thesis using good by simp
  qed
  then show "((ss', field', flds @ [c]), (ss, field, flds))
      \<in> measure (\<lambda>(ss, field, flds). length (chars ss) + (if eofbit ss then 0 else 1))"
    using good by simp
qed

declare parse_loop.simps [simp del]

definition parseCSVLine :: "string \<Rightarrow> failure + string list" where
  "parseCSVLine line = parse_loop (istream_on line) [] []"

section \<open>Record writing\<close>

text \<open>
  The \<^verbatim>\<open>for\<close> loop of \<^verbatim>\<open>writeCSVLine\<close>, appending \<^verbatim>\<open>',' << fields[i]\<close> to the local
  string stream from index \<open>i\<close> on.
\<close>

function write_loop :: "string list \<Rightarrow> nat \<Rightarrow> string \<Rightarrow> string" where
  "write_loop flds i ss =
     (if i < length flds then write_loop flds (i + 1) (ss @ [COMMA] @ flds ! i) else ss)"
  by pat_completeness auto
termination
  by (relation "measure (\<lambda>(flds, i, ss). length flds - i)") auto

declare write_loop.simps [simp del]

text \<open>
  \<^verbatim>\<open>writeCSVLine\<close>: the output stream is the string of bytes written so far; the result is
  that string after the call.
\<close>

definition writeCSVLine :: "string \<Rightarrow> string list \<Rightarrow> string" where
  "writeCSVLine output flds =
     (if flds = [] then output
      else output @ (write_loop flds 1 (flds ! 0) @ [LF]))"

section \<open>The two engines\<close>

text \<open>
  The read loop of \<^verbatim>\<open>processFile\<close>. The line counters only feed the console messages and
  are left out, as are the messages and the timing.
\<close>

function process_loop :: "istream \<Rightarrow> string \<Rightarrow> string \<Rightarrow> failure + string" where
  "process_loop input line output =
     (case getline input line LF of
        (input', line') \<Rightarrow>
          if failbit input' then Inr output
          else (case parseCSVLine line' of
                  Inl e \<Rightarrow> Inl e
                | Inr flds \<Rightarrow> process_loop input' line' (writeCSVLine output flds)))"
  by pat_completeness auto
termination
proof (relation "measure (\<lambda>(input, line, out). length (chars input) + (if eofbit input then 0 else 1))")
  show "wf (measure (\<lambda>(input, line, out). length (chars input) + (if eofbit input then 0 else 1)))"
    by simp
next
  fix input :: istream and line :: string and out :: "string" and input' line' flds
  assume g: "(input', line') = getline input line LF" and nf: "\<not> failbit input'"
    and "parseCSVLine line' = Inr flds"
  let ?r = "dropWhile (\<lambda>c. c \<noteq> LF) (chars input)"
  have good: "\<not> eofbit input" "\<not> failbit input"
    using g nf by (auto simp: getline_def split: if_splits)
  have "length (chars input') + (if eofbit input' then 0 else 1) < length (chars input) + 1"
  proof (cases "LF \<in> set (chars input)")
    case False
    then have "input' = \<lparr>chars = [], eofbit = True, failbit = (chars input = [])\<rparr>"
      using g good by (simp add: getline_def)
    then show ?thesis by simp
  next
    case True
    then have "input' = input\<lparr>chars := tl ?r\<rparr>"
      using g good by (simp add: getline_def)
    moreover have "?r \<noteq> []" using True by simp
    then have "length (tl ?r) < length (chars input)"
      using length_dropWhile_le[of "\<lambda>c. c \<noteq> LF" "chars input"]
      by (cases ?r) auto
    ultimately show ?thesis using good by simp
  qed
  then show "((input', line', writeCSVLine out flds), (input, line, out))
      \<in> measure (\<lambda>(input, line, out). length (chars input) + (if eofbit input then 0 else 1))"
    using good by simp
qed

declare process_loop.simps [simp del]

text \<open>
  \<^verbatim>\<open>std::find(first, last, c)\<close> on the mapped bytes, with pointers as offsets from the start of
  the mapping.
\<close>

function find_from :: "string \<Rightarrow> nat \<Rightarrow> nat \<Rightarrow> char \<Rightarrow> nat" where
  "find_from m first lst c =
     (if first < lst then (if m ! first = c then first else find_from m (first + 1) lst c)
      else lst)"
  by pat_completeness auto
termination
  by (relation "measure (\<lambda>(m, first, lst, c). lst - first)") auto

declare find_from.simps [simp del]

text \<open>The scan loop of \<^verbatim>\<open>processFileMemoryMapped\<close> over the mapped bytes.\<close>

function scan_loop :: "string \<Rightarrow> nat \<Rightarrow> string \<Rightarrow> failure + string" where
  "scan_loop mapped lineStart output =
     (if lineStart < length mapped then
        (let lineEnd = find_from mapped lineStart (length mapped) LF
         in case (if lineStart < lineEnd then
                    (let actualLineEnd =
                           (if lineStart < lineEnd \<and> mapped ! (lineEnd - 1) = CR
                            then lineEnd - 1 else lineEnd);
                         line = take (actualLineEnd - lineStart) (drop lineStart mapped)
                     in case parseCSVLine line of
                          Inl e \<Rightarrow> Inl e
                        | Inr flds \<Rightarrow> Inr (writeCSVLine output flds))
                  else Inr output) of
              Inl e \<Rightarrow> Inl e
            | Inr output' \<Rightarrow>
                scan_loop mapped (if lineEnd = length mapped then length mapped else lineEnd + 1)
                  output')
      else Inr output)"
  by pat_completeness auto
termination
proof (relation "measure (\<lambda>(mapped, lineStart, output). length mapped - lineStart)")
  show "wf (measure (\<lambda>(mapped, lineStart, output). length mapped - lineStart))"
    by simp
next
  fix mapped :: string and lineStart :: nat and lineEnd :: nat and out out' :: string
  assume lt: "lineStart < length mapped"
    and le: "lineEnd = find_from mapped lineStart (length mapped) LF"
  have "i \<le> length mapped \<Longrightarrow> i \<le> find_from mapped i (length mapped) LF" for i
  proof (induction mapped i "length mapped" LF rule: find_from.induct)
    case (1 m first)
    then show ?case
      using find_from.simps[of m first "length m" LF]
      by (cases "first < length m"; cases "m ! first = LF"; force)
  qed
  from this[of lineStart] have "lineStart \<le> lineEnd" using lt le by simp
  then show "((mapped, if lineEnd = length mapped then length mapped else lineEnd + 1, out'),
              (mapped, lineStart, out))
             \<in> measure (\<lambda>(mapped, lineStart, output). length mapped - lineStart)"
    using lt by auto
qed

declare scan_loop.simps [simp del]

section \<open>Files\<close>

text \<open>
  The file system as the program sees it: the bytes of the files that exist, and whether a
  path can be opened for reading, created or truncated for writing, examined with
  \<^verbatim>\<open>fstat\<close> and mapped. A path names one file; two names for the same file are not modelled.
\<close>

record fsys =
  files :: "string \<rightharpoonup> string"
  readable :: "string \<Rightarrow> bool"
  creatable :: "string \<Rightarrow> bool"
  statable :: "string \<Rightarrow> bool"
  mappable :: "string \<Rightarrow> bool"

text \<open>\<^verbatim>\<open>std::ifstream input(path, std::ios::binary); input.is_open()\<close>.\<close>

definition ifstream_is_open :: "fsys \<Rightarrow> string \<Rightarrow> bool" where
  "ifstream_is_open fs path = (files fs path \<noteq> None \<and> readable fs path)"

text \<open>
  \<^verbatim>\<open>std::ofstream output(path, std::ios::binary)\<close>: creates the file or truncates it; \<open>None\<close>
  when \<^verbatim>\<open>is_open()\<close> is false.
\<close>

definition ofstream_open :: "fsys \<Rightarrow> string \<Rightarrow> fsys option" where
  "ofstream_open fs path =
     (if creatable fs path then Some (fs\<lparr>files := (files fs)(path \<mapsto> [])\<rparr>) else None)"

definition file_bytes :: "fsys \<Rightarrow> string \<Rightarrow> string" where
  "file_bytes fs path = (case files fs path of None \<Rightarrow> [] | Some bytes \<Rightarrow> bytes)"

text \<open>
  \<^verbatim>\<open>processFile\<close>. The input stream reads nothing before the output has been opened, so it
  sees the file as it is after that (empty, when both paths are the same). The result pairs
  the returned \<^verbatim>\<open>bool\<close> with the file system left behind.
\<close>

definition processFile :: "fsys \<Rightarrow> string \<Rightarrow> string \<Rightarrow> failure + (bool \<times> fsys)" where
  "processFile fs inputPath outputPath =
     (if \<not> ifstream_is_open fs inputPath then Inr (False, fs)
      else (case ofstream_open fs outputPath of
              None \<Rightarrow> Inr (False, fs)
            | Some fs1 \<Rightarrow>
                (case process_loop (istream_on (file_bytes fs1 inputPath)) [] [] of
                   Inl e \<Rightarrow> Inl e
                 | Inr out \<Rightarrow> Inr (True, fs1\<lparr>files := (files fs1)(outputPath \<mapsto> out)\<rparr>))))"

text \<open>
  \<^verbatim>\<open>processFileMemoryMapped\<close>, the POSIX branch: \<^verbatim>\<open>open\<close>, \<^verbatim>\<open>fstat\<close>, \<^verbatim>\<open>mmap\<close> of
  \<^verbatim>\<open>st_size\<close> bytes (which fails for length 0), then the output is opened and the mapping is
  scanned. If the output path is the input path, opening the output truncates the mapped
  file and the first read of the mapping faults.
\<close>

definition processFileMemoryMapped :: "fsys \<Rightarrow> string \<Rightarrow> string \<Rightarrow> failure + (bool \<times> fsys)" where
  "processFileMemoryMapped fs inputPath outputPath =
     (case files fs inputPath of
        None \<Rightarrow> Inr (False, fs)
      | Some bytes \<Rightarrow>
          if \<not> readable fs inputPath then Inr (False, fs)
          else if \<not> statable fs inputPath then Inr (False, fs)
          else if length bytes = 0 \<or> \<not> mappable fs inputPath then Inr (False, fs)
          else (case ofstream_open fs outputPath of
                  None \<Rightarrow> Inr (False, fs)
                | Some fs1 \<Rightarrow>
                    if inputPath = outputPath then Inl BusError
                    else (case scan_loop bytes 0 [] of
                            Inl e \<Rightarrow> Inl e
                          | Inr out \<Rightarrow>
                              Inr (True, fs1\<lparr>files := (files fs1)(outputPath \<mapsto> out)\<rparr>))))"

section \<open>Notions used to state the properties\<close>

text \<open>
  The strings that successive calls of \<^verbatim>\<open>std::getline\<close> with delimiter \<open>d\<close> deliver from a
  fresh stream over \<open>s\<close>, up to the first call that fails: the pieces between delimiters,
  without a last piece when the input is empty or ends with the delimiter.
\<close>

function getline_all :: "char \<Rightarrow> string \<Rightarrow> string list" where
  "getline_all d s =
     (if s = [] then []
      else if d \<in> set s
      then takeWhile (\<lambda>c. c \<noteq> d) s # getline_all d (tl (dropWhile (\<lambda>c. c \<noteq> d) s))
      else [s])"
  by pat_completeness auto
termination
proof (relation "measure (\<lambda>(d, s). length s)")
  show "wf (measure (\<lambda>(d, s). length s))"
    by simp
next
  fix d :: char and s :: string
  assume "d \<in> set s"
  then have "dropWhile (\<lambda>c. c \<noteq> d) s \<noteq> []"
    by simp
  then have "length (tl (dropWhile (\<lambda>c. c \<noteq> d) s)) < length s"
    using length_dropWhile_le[of "\<lambda>c. c \<noteq> d" s]
    by (cases "dropWhile (\<lambda>c. c \<noteq> d) s") auto
  then show "((d, tl (dropWhile (\<lambda>c. c \<noteq> d) s)), (d, s)) \<in> measure (\<lambda>(d, s). length s)"
    by simp
qed

declare getline_all.simps [simp del]

text \<open>What the streaming loop appends to the output for one line it has read.\<close>

definition stream_line :: "string \<Rightarrow> string" where
  "stream_line l = writeCSVLine [] (map spec_clean (getline_all COMMA l))"

text \<open>
  What the scan loop appends for one range between newlines: nothing for an empty range,
  otherwise the record of the range without a final carriage return.
\<close>

definition mapped_line :: "string \<Rightarrow> string" where
  "mapped_line l =
     (if l = [] then []
      else writeCSVLine [] (map spec_clean (getline_all COMMA (if last l = CR then butlast l else l))))"

text \<open>The fields of a record joined with commas, as the specification of the writer has it.\<close>

fun spec_join :: "string list \<Rightarrow> string" where
  "spec_join [] = []"
| "spec_join [f] = f"
| "spec_join (f # g # fs) = f @ [COMMA] @ spec_join (g # fs)"

text \<open>The number of fields \<^verbatim>\<open>parseCSVLine\<close> returns (\<open>None\<close> if it throws).\<close>

definition parsed_field_count :: "string \<Rightarrow> nat option" where
  "parsed_field_count line =
     (case parseCSVLine line of Inl e \<Rightarrow> None | Inr flds \<Rightarrow> Some (length flds))"

text \<open>
  The strictest reading of "no raw carriage return inside a field's interior": in every
  line of the input a carriage return occurs at most as the very last byte, where it belongs
  to the line terminator.
\<close>

definition no_interior_cr :: "string \<Rightarrow> bool" where
  "no_interior_cr bytes = list_all (\<lambda>l. CR \<notin> set (butlast l)) (getline_all LF bytes)"

text \<open>
  A line that ends in a carriage return is handled alike by both engines when the text
  before the carriage return is not empty and does not end with a comma.
\<close>

definition cr_line_safe :: "string \<Rightarrow> bool" where
  "cr_line_safe l =
     (l \<noteq> [] \<and> last l = CR \<longrightarrow> butlast l \<noteq> [] \<and> last (butlast l) \<noteq> COMMA)"

definition cr_lines_safe :: "string \<Rightarrow> bool" where
  "cr_lines_safe bytes = list_all cr_line_safe (getline_all LF bytes)"

text \<open>A file system with a single file and no restrictions, and the file a run leaves behind.\<close>

definition single_file_fs :: "string \<Rightarrow> string \<Rightarrow> fsys" where
  "single_file_fs path bytes =
     \<lparr>files = [path \<mapsto> bytes], readable = (\<lambda>p. True), creatable = (\<lambda>p. True),
      statable = (\<lambda>p. True), mappable = (\<lambda>p. True)\<rparr>"

definition result_file :: "failure + (bool \<times> fsys) \<Rightarrow> string \<Rightarrow> string option" where
  "result_file r path = (case r of Inl e \<Rightarrow> None | Inr (ok, fs') \<Rightarrow> files fs' path)"

definition returned :: "failure + (bool \<times> fsys) \<Rightarrow> bool option" where
  "returned r = (case r of Inl e \<Rightarrow> None | Inr (ok, fs') \<Rightarrow> Some ok)"

text \<open>
  Whether a result of \<^verbatim>\<open>cleanField\<close> is stable under a second pass: it has no leading or
  trailing trim character and is not itself enclosed in double quotes.
\<close>

definition clean_stable :: "string \<Rightarrow> bool" where
  "clean_stable c =
     (\<not> spec_trim_char (hd c) \<and> \<not> spec_trim_char (last c) \<and> \<not> spec_quoted c)"

section \<open>Properties of field cleaning\<close>

text \<open>The library searches and \<^verbatim>\<open>trim\<close>, expressed on lists.\<close>

lemma in_trim_chars: "(c \<in> set trim_chars) = spec_trim_char c"
  by (auto simp: trim_chars_def spec_trim_char_def)

lemma isspace_spec: "isspace = spec_whitespace"
  by (auto simp: isspace_def spec_whitespace_def fun_eq_iff)

lemma find_first_not_of_eq:
  "find_first_not_of s cs =
     (if \<forall>c \<in> set s. c \<in> set cs then None
      else Some (length (takeWhile (\<lambda>c. c \<in> set cs) s)))"
  by (induction s) auto

lemma find_last_not_of_eq:
  "find_last_not_of s cs =
     (if \<forall>c \<in> set s. c \<in> set cs then None
      else Some (length (dropWhile (\<lambda>c. c \<in> set cs) (rev s)) - 1))"
proof (induction s)
  case Nil
  then show ?case by simp
next
  case (Cons c s)
  show ?case
  proof (cases "\<forall>x \<in> set s. x \<in> set cs")
    case True
    then have "\<And>x. x \<in> set (rev s) \<Longrightarrow> x \<in> set cs" by simp
    then have "dropWhile (\<lambda>c. c \<in> set cs) (rev s @ [c]) = dropWhile (\<lambda>c. c \<in> set cs) [c]"
      by (rule dropWhile_append2)
    then show ?thesis using Cons True by simp
  next
    case False
    then obtain x where x: "x \<in> set (rev s)" "x \<notin> set cs"
      by auto
    then have app: "dropWhile (\<lambda>c. c \<in> set cs) (rev s @ [c]) = dropWhile (\<lambda>c. c \<in> set cs) (rev s) @ [c]"
      by (intro dropWhile_append1) auto
    have "dropWhile (\<lambda>c. c \<in> set cs) (rev s) \<noteq> []"
      using x by auto
    then show ?thesis using Cons False app
      by (cases "dropWhile (\<lambda>c. c \<in> set cs) (rev s)") auto
  qed
qed

lemma rev_dropWhile_rev_take:
  "rev (dropWhile P (rev xs)) = take (length (dropWhile P (rev xs))) xs"
proof -
  have "rev xs = takeWhile P (rev xs) @ dropWhile P (rev xs)" by simp
  then have "xs = rev (dropWhile P (rev xs)) @ rev (takeWhile P (rev xs))"
    by (metis rev_append rev_rev_ident)
  then have "take (length (rev (dropWhile P (rev xs)))) xs = rev (dropWhile P (rev xs))"
    by (metis append_eq_conv_conj)
  then show ?thesis by simp
qed

lemma dropWhile_rev_dropWhile:
  assumes "x \<in> set s" "\<not> P x"
  shows "dropWhile P (rev s) = dropWhile P (rev (dropWhile P s)) @ rev (takeWhile P s)"
proof -
  have "dropWhile P s \<noteq> []" using assms by auto
  then have y: "hd (dropWhile P s) \<in> set (rev (dropWhile P s))" "\<not> P (hd (dropWhile P s))"
    by (simp_all add: hd_dropWhile)
  have "rev s = rev (dropWhile P s) @ rev (takeWhile P s)"
    by (metis rev_append takeWhile_dropWhile_id)
  moreover have "dropWhile P (rev (dropWhile P s) @ rev (takeWhile P s))
      = dropWhile P (rev (dropWhile P s)) @ rev (takeWhile P s)"
    using y by (rule dropWhile_append1)
  ultimately show ?thesis by simp
qed

lemma trim_eq: "trim s = Inr (spec_trim s)"
proof (cases "\<forall>c \<in> set s. spec_trim_char c")
  case True
  then have d: "dropWhile spec_trim_char s = []" by (simp only: dropWhile_eq_Nil_conv)
  have "spec_trim s = []" unfolding spec_trim_def d by simp
  moreover have "trim s = Inr []"
    using True by (simp add: trim_def find_first_not_of_eq in_trim_chars)
  ultimately show ?thesis by simp
next
  case False
  let ?P = "spec_trim_char"
  let ?d = "dropWhile ?P s"
  let ?n = "length (takeWhile ?P s)"
  let ?m = "length (dropWhile ?P (rev ?d))"
  from False obtain x where x: "x \<in> set s" "\<not> ?P x" by auto
  have len: "length (dropWhile ?P (rev s)) = ?m + ?n"
    using dropWhile_rev_dropWhile[of x s ?P] x by simp
  have "?d \<noteq> []" using x by auto
  then have "hd ?d \<in> set (rev ?d)" "\<not> ?P (hd ?d)" by (simp_all add: hd_dropWhile)
  then have "dropWhile ?P (rev ?d) \<noteq> []" by auto
  then have m: "0 < ?m" by simp
  have "trim s = substr s ?n (length (dropWhile ?P (rev s)) - 1 - ?n + 1)"
    using x by (auto simp: trim_def find_first_not_of_eq find_last_not_of_eq in_trim_chars)
  also have "length (dropWhile ?P (rev s)) - 1 - ?n + 1 = ?m"
    using len m by simp
  also have "substr s ?n ?m = Inr (take ?m (drop ?n s))"
    using length_takeWhile_le[of ?P s] by (simp add: substr_def)
  also have "drop ?n s = ?d"
    by (simp add: dropWhile_eq_drop)
  finally show ?thesis
    by (simp add: spec_trim_def rev_dropWhile_rev_take)
qed

lemma butlast_tl_take_drop: "butlast (tl t) = take (length t - 2) (drop 1 t)"
  by (simp add: butlast_conv_take drop_Suc numeral_2_eq_2)

lemma cleanField_eq: "cleanField f = Inr (spec_clean f)"
  by (auto simp: cleanField_def trim_eq spec_clean_def spec_unquote_def spec_quoted_def
      substr_def isspace_spec butlast_tl_take_drop Let_def)

lemma spec_clean_nonempty: "spec_clean f \<noteq> []"
  by (simp add: spec_clean_def Let_def)

lemma cleanField_examples:
  shows "cleanField [] = Inr ''0''"
    and "cleanField ''   '' = Inr ''0''"
    and "cleanField ''-'' = Inr ''0''"
    and "cleanField ''--'' = Inr ''0''"
    and "cleanField ([QUOTE] @ ''abc'' @ [QUOTE]) = Inr ''abc''"
    and "cleanField [QUOTE, QUOTE] = Inr ''0''"
  by (simp_all add: cleanField_eq spec_clean_def spec_trim_def spec_trim_char_def
      spec_unquote_def spec_quoted_def spec_whitespace_def)

text \<open>How trimming and cleaning behave under a second pass and a trailing carriage return.\<close>

lemma spec_trim_snoc: "spec_trim_char c \<Longrightarrow> spec_trim (x @ [c]) = spec_trim x"
proof (cases "\<forall>y \<in> set x. spec_trim_char y")
  case True
  assume c: "spec_trim_char c"
  from True have "dropWhile spec_trim_char x = []" by (simp only: dropWhile_eq_Nil_conv)
  moreover from True c have "\<forall>y \<in> set (x @ [c]). spec_trim_char y" by simp
  then have "dropWhile spec_trim_char (x @ [c]) = []" by (simp only: dropWhile_eq_Nil_conv)
  ultimately show ?thesis by (simp only: spec_trim_def)
next
  case False
  assume c: "spec_trim_char c"
  from False obtain y where "y \<in> set x" "\<not> spec_trim_char y" by auto
  then have "dropWhile spec_trim_char (x @ [c]) = dropWhile spec_trim_char x @ [c]"
    by (rule dropWhile_append1)
  then show ?thesis using c by (simp add: spec_trim_def)
qed

lemma spec_clean_snoc_CR: "spec_clean (x @ [CR]) = spec_clean x"
  by (simp add: spec_clean_def spec_trim_snoc spec_trim_char_def)

lemma spec_trim_decomp:
  "c = takeWhile spec_trim_char c @ spec_trim c
         @ rev (takeWhile spec_trim_char (rev (dropWhile spec_trim_char c)))"
proof -
  let ?P = spec_trim_char
  let ?d = "dropWhile ?P c"
  have "rev ?d = takeWhile ?P (rev ?d) @ dropWhile ?P (rev ?d)" by simp
  then have "?d = rev (dropWhile ?P (rev ?d)) @ rev (takeWhile ?P (rev ?d))"
    by (metis rev_append rev_rev_ident)
  then have "?d = spec_trim c @ rev (takeWhile ?P (rev ?d))"
    by (simp add: spec_trim_def)
  moreover have "c = takeWhile ?P c @ ?d" by simp
  ultimately show ?thesis by metis
qed

lemma length_spec_trim: "length (spec_trim c) \<le> length c"
proof -
  have "length c = length (takeWhile spec_trim_char c) + length (spec_trim c)
      + length (rev (takeWhile spec_trim_char (rev (dropWhile spec_trim_char c))))"
    using spec_trim_decomp[of c] by (metis length_append add.assoc)
  then show ?thesis by simp
qed

lemma spec_trim_stable:
  "c \<noteq> [] \<Longrightarrow> \<not> spec_trim_char (hd c) \<Longrightarrow> \<not> spec_trim_char (last c) \<Longrightarrow> spec_trim c = c"
proof -
  assume c: "c \<noteq> []" and h: "\<not> spec_trim_char (hd c)" and l: "\<not> spec_trim_char (last c)"
  from c h have d: "dropWhile spec_trim_char c = c" by (cases c) auto
  from c l have "dropWhile spec_trim_char (rev c) = rev c"
    by (cases "rev c") (auto simp: hd_rev[symmetric])
  with d show ?thesis by (simp add: spec_trim_def)
qed

lemma spec_trim_fixed:
  assumes "spec_trim c = c" "c \<noteq> []"
  shows "\<not> spec_trim_char (hd c) \<and> \<not> spec_trim_char (last c)"
proof -
  let ?P = spec_trim_char
  let ?d = "dropWhile ?P c"
  have "length c = length (takeWhile ?P c) + length (spec_trim c)
      + length (rev (takeWhile ?P (rev ?d)))"
    using spec_trim_decomp[of c] by (metis length_append add.assoc)
  with assms have "takeWhile ?P c = []" by simp
  with assms have h: "\<not> ?P (hd c)" by (cases c) (auto split: if_splits)
  then have d: "?d = c" using assms by (cases c) auto
  from assms d have "rev (dropWhile ?P (rev c)) = c" by (simp add: spec_trim_def)
  then have "dropWhile ?P (rev c) = rev c" by (metis rev_rev_ident)
  moreover have "rev c \<noteq> []" using assms by simp
  ultimately have "\<not> ?P (hd (rev c))" by (metis hd_dropWhile)
  then have "\<not> ?P (last c)" using assms by (simp add: hd_rev)
  with h show ?thesis by simp
qed

lemma spec_trim_ends:
  "spec_trim f \<noteq> [] \<Longrightarrow>
     \<not> spec_trim_char (hd (spec_trim f)) \<and> \<not> spec_trim_char (last (spec_trim f))"
proof -
  let ?P = spec_trim_char
  let ?d = "dropWhile ?P f"
  let ?e = "dropWhile ?P (rev ?d)"
  assume ne: "spec_trim f \<noteq> []"
  then have e: "?e \<noteq> []" by (simp add: spec_trim_def)
  then have "\<not> ?P (hd ?e)" by (rule hd_dropWhile)
  then have l: "\<not> ?P (last (spec_trim f))"
    using e by (simp add: spec_trim_def last_rev)
  have d: "?d \<noteq> []"
  proof
    assume z: "?d = []"
    have "?e = []" unfolding z by simp
    with e show False by simp
  qed
  then have hd: "\<not> ?P (hd ?d)" by (rule hd_dropWhile)
  have "spec_trim f = take (length ?e) ?d"
    by (simp add: spec_trim_def rev_dropWhile_rev_take)
  moreover have "0 < length ?e" using e by simp
  ultimately have "hd (spec_trim f) = hd ?d"
    using d by (cases ?d) (auto simp: take_Cons split: nat.splits)
  with hd l show ?thesis by simp
qed

lemma length_spec_unquote: "spec_quoted t \<Longrightarrow> length (spec_unquote t) < length t"
  by (auto simp: spec_unquote_def spec_quoted_def)

lemma spec_clean_cases:
  "spec_clean f = ''0'' \<or>
   (spec_clean f = spec_unquote (spec_trim f) \<and> spec_clean f \<noteq> []
     \<and> \<not> list_all spec_whitespace (spec_clean f)
     \<and> spec_clean f \<noteq> ''-'' \<and> spec_clean f \<noteq> ''--'')"
  by (simp add: spec_clean_def Let_def)

lemma clean_stable_zero: "clean_stable ''0''"
  by (simp add: clean_stable_def spec_trim_char_def spec_quoted_def)

lemma spec_clean_zero: "spec_clean ''0'' = ''0''"
  by (simp add: spec_clean_def spec_trim_def spec_trim_char_def
      spec_unquote_def spec_quoted_def spec_whitespace_def)

lemma spec_clean_twice_iff:
  "(spec_clean (spec_clean f) = spec_clean f) = clean_stable (spec_clean f)"
proof -
  let ?c = "spec_clean f"
  have ne: "?c \<noteq> []" by (rule spec_clean_nonempty)
  show ?thesis
  proof (cases "?c = ''0''")
    case True
    then show ?thesis by (simp add: clean_stable_zero spec_clean_zero)
  next
    case False
    with spec_clean_cases[of f]
    have keep: "\<not> list_all spec_whitespace ?c" "?c \<noteq> ''-''" "?c \<noteq> ''--''"
      by blast+
    show ?thesis
    proof
      assume st: "clean_stable ?c"
      then have "spec_trim ?c = ?c"
        using ne by (simp add: clean_stable_def spec_trim_stable)
      moreover have "spec_unquote ?c = ?c"
        using st by (simp add: clean_stable_def spec_unquote_def)
      ultimately show "spec_clean ?c = ?c"
        using keep ne by (simp add: spec_clean_def[of ?c] Let_def)
    next
      assume fx: "spec_clean ?c = ?c"
      have nq: "\<not> spec_quoted (spec_trim ?c)"
      proof
        assume q: "spec_quoted (spec_trim ?c)"
        then have "length (spec_unquote (spec_trim ?c)) < length ?c"
          using length_spec_unquote[OF q] length_spec_trim[of ?c] by simp
        moreover have "spec_clean ?c = spec_unquote (spec_trim ?c)"
          using spec_clean_cases[of ?c] fx False by simp
        ultimately show False using fx by simp
      qed
      then have "spec_unquote (spec_trim ?c) = spec_trim ?c"
        by (simp add: spec_unquote_def)
      then have "spec_trim ?c = ?c"
        using spec_clean_cases[of ?c] fx False by simp
      then show "clean_stable ?c"
        using nq spec_trim_fixed[of ?c] ne by (simp add: clean_stable_def)
    qed
  qed
qed

lemma cleanField_twice_iff:
  "cleanField f = Inr c \<Longrightarrow> (cleanField_twice f = cleanField f) = clean_stable c"
  using spec_clean_twice_iff[of f]
  by (auto simp: cleanField_twice_def cleanField_eq)

lemma spec_clean_no_new_comma: "COMMA \<notin> set f \<Longrightarrow> COMMA \<notin> set (spec_clean f)"
proof -
  assume a: "COMMA \<notin> set f"
  have "set (spec_trim f) \<subseteq> set f"
    by (auto simp: spec_trim_def dest!: set_dropWhileD)
  moreover have "x \<in> set (butlast (tl u)) \<Longrightarrow> x \<in> set u" for x :: char and u
    by (cases u) (auto dest: in_set_butlastD)
  then have "set (spec_unquote (spec_trim f)) \<subseteq> set (spec_trim f)"
    by (auto simp: spec_unquote_def)
  ultimately have "COMMA \<notin> set (spec_unquote (spec_trim f))" using a by auto
  then show ?thesis by (simp add: spec_clean_def Let_def)
qed

section \<open>Properties of parsing and writing\<close>

text \<open>The pieces a \<^verbatim>\<open>getline\<close> loop delivers, and the two loops in terms of them.\<close>

lemma getline_all_Nil: "getline_all d [] = []"
  by (simp add: getline_all.simps)

lemma getline_all_single: "s \<noteq> [] \<Longrightarrow> d \<notin> set s \<Longrightarrow> getline_all d s = [s]"
  by (simp add: getline_all.simps)

lemma getline_all_split:
  "d \<in> set s \<Longrightarrow>
     getline_all d s = takeWhile (\<lambda>c. c \<noteq> d) s # getline_all d (tl (dropWhile (\<lambda>c. c \<noteq> d) s))"
  by (subst getline_all.simps) auto

lemma getline_all_Cons: "d \<notin> set l \<Longrightarrow> getline_all d (l @ d # rest) = l # getline_all d rest"
proof -
  assume l: "d \<notin> set l"
  then have "takeWhile (\<lambda>c. c \<noteq> d) (l @ d # rest) = l"
    by (induction l) auto
  moreover have "dropWhile (\<lambda>c. c \<noteq> d) (l @ d # rest) = d # rest"
    using l by (induction l) auto
  ultimately show ?thesis
    by (simp add: getline_all_split)
qed

lemma getline_all_append:
  "pre = [] \<or> last pre = d \<Longrightarrow>
     getline_all d (pre @ rest) = getline_all d pre @ getline_all d rest"
proof (induction "length pre" arbitrary: pre rule: less_induct)
  case less
  show ?case
  proof (cases "pre = []")
    case True
    then show ?thesis by (simp add: getline_all_Nil)
  next
    case False
    with less.prems have "d \<in> set pre" by (metis last_in_set)
    then obtain l pre' where sp: "pre = l @ d # pre'" "d \<notin> set l"
      by (meson split_list_first)
    have "pre' = [] \<or> last pre' = d" using less.prems False sp by (auto split: if_splits)
    moreover have "length pre' < length pre" using sp by simp
    ultimately have "getline_all d (pre' @ rest) = getline_all d pre' @ getline_all d rest"
      by (rule less.hyps[rotated])
    then show ?thesis
      using sp getline_all_Cons[of d l "pre' @ rest"] getline_all_Cons[of d l pre'] by simp
  qed
qed

lemma getline_all_final_delim:
  "s \<noteq> [] \<Longrightarrow> last s \<noteq> d \<Longrightarrow> getline_all d (s @ [d]) = getline_all d s"
proof (induction "length s" arbitrary: s rule: less_induct)
  case less
  show ?case
  proof (cases "d \<in> set s")
    case False
    then show ?thesis
      using less.prems getline_all_Cons[of d s "[]"]
      by (simp add: getline_all_Nil getline_all_single)
  next
    case True
    then obtain l s' where sp: "s = l @ d # s'" "d \<notin> set l"
      by (meson split_list_first)
    have ne: "s' \<noteq> []" "last s' \<noteq> d" using less.prems sp by (auto split: if_splits)
    moreover have "length s' < length s" using sp by simp
    ultimately have "getline_all d (s' @ [d]) = getline_all d s'"
      using less.hyps by blast
    then show ?thesis
      using sp getline_all_Cons[of d l "s' @ [d]"] getline_all_Cons[of d l s'] by simp
  qed
qed

lemma getline_all_no_delim: "f \<in> set (getline_all d s) \<Longrightarrow> d \<notin> set f"
proof (induction "length s" arbitrary: s rule: less_induct)
  case less
  show ?case
  proof (cases "d \<in> set s")
    case False
    then show ?thesis using less.prems
      by (cases "s = []") (auto simp: getline_all_Nil getline_all_single)
  next
    case True
    then obtain l s' where sp: "s = l @ d # s'" "d \<notin> set l"
      by (meson split_list_first)
    have "length s' < length s" using sp by simp
    then show ?thesis
      using less.hyps[of s'] less.prems sp getline_all_Cons[of d l s'] by auto
  qed
qed

lemma length_getline_all:
  "length (getline_all d s) = count_list s d + (if s = [] \<or> last s = d then 0 else 1)"
proof (induction "length s" arbitrary: s rule: less_induct)
  case less
  show ?case
  proof (cases "d \<in> set s")
    case False
    then show ?thesis
      by (cases "s = []") (auto simp: getline_all_Nil getline_all_single)
  next
    case True
    then obtain l s' where sp: "s = l @ d # s'" "d \<notin> set l"
      by (meson split_list_first)
    have "length s' < length s" using sp by simp
    then have "length (getline_all d s') =
                 count_list s' d + (if s' = [] \<or> last s' = d then 0 else 1)"
      by (rule less.hyps)
    moreover have "count_list l d = 0" using sp by simp
    ultimately show ?thesis
      using sp getline_all_Cons[of d l s'] by simp
  qed
qed

lemma clean_getline_all_snoc_CR:
  "t \<noteq> [] \<Longrightarrow> last t \<noteq> COMMA \<Longrightarrow>
     map spec_clean (getline_all COMMA (t @ [CR])) = map spec_clean (getline_all COMMA t)"
proof (induction "length t" arbitrary: t rule: less_induct)
  case less
  show ?case
  proof (cases "COMMA \<in> set t")
    case False
    then show ?thesis using less.prems
      by (simp add: getline_all_single spec_clean_snoc_CR)
  next
    case True
    then obtain a t' where sp: "t = a @ COMMA # t'" "COMMA \<notin> set a"
      by (meson split_list_first)
    have ne: "t' \<noteq> []" "last t' \<noteq> COMMA" using less.prems sp by (auto split: if_splits)
    moreover have "length t' < length t" using sp by simp
    ultimately have "map spec_clean (getline_all COMMA (t' @ [CR]))
                       = map spec_clean (getline_all COMMA t')"
      using less.hyps by blast
    then show ?thesis
      using sp getline_all_Cons[of COMMA a "t' @ [CR]"] getline_all_Cons[of COMMA a t']
      by simp
  qed
qed

lemma parse_loop_not_good:
  "eofbit ss \<or> failbit ss \<Longrightarrow> parse_loop ss field flds = Inr flds"
  by (subst parse_loop.simps) (simp add: getline_def)

lemma parse_loop_eq:
  "\<not> eofbit ss \<Longrightarrow> \<not> failbit ss \<Longrightarrow>
     parse_loop ss field flds = Inr (flds @ map spec_clean (getline_all COMMA (chars ss)))"
proof (induction "length (chars ss)" arbitrary: ss field flds rule: less_induct)
  case less
  let ?r = "dropWhile (\<lambda>c. c \<noteq> COMMA) (chars ss)"
  show ?case
  proof (cases "COMMA \<in> set (chars ss)")
    case True
    then have "?r \<noteq> []" by simp
    then have "length (tl ?r) < length (chars ss)"
      using length_dropWhile_le[of "\<lambda>c. c \<noteq> COMMA" "chars ss"] by (cases ?r) auto
    then have "length (chars (ss\<lparr>chars := tl ?r\<rparr>)) < length (chars ss)" by simp
    from less.hyps[OF this] less.prems
    have "parse_loop (ss\<lparr>chars := tl ?r\<rparr>) f' fl'
            = Inr (fl' @ map spec_clean (getline_all COMMA (tl ?r)))" for f' fl'
      by simp
    then show ?thesis
      using True less.prems
      by (subst parse_loop.simps) (simp add: getline_def cleanField_eq getline_all_split)
  next
    case False
    show ?thesis
    proof (cases "chars ss = []")
      case True
      then show ?thesis using less.prems
        by (subst parse_loop.simps) (simp add: getline_def getline_all_Nil)
    next
      case ne: False
      then show ?thesis using less.prems False
        by (subst parse_loop.simps)
          (simp add: getline_def cleanField_eq getline_all_single parse_loop_not_good)
    qed
  qed
qed

lemma parseCSVLine_eq: "parseCSVLine line = Inr (map spec_clean (getline_all COMMA line))"
  by (simp add: parseCSVLine_def istream_on_def parse_loop_eq)

lemma write_loop_eq:
  "write_loop flds i ss = ss @ concat (map (\<lambda>f. COMMA # f) (drop i flds))"
proof (induction flds i ss rule: write_loop.induct)
  case (1 flds i ss)
  show ?case
  proof (cases "i < length flds")
    case True
    then have "drop i flds = flds ! i # drop (Suc i) flds"
      by (simp add: Cons_nth_drop_Suc)
    then show ?thesis using 1 True
      by (subst write_loop.simps) simp
  next
    case False
    then show ?thesis by (subst write_loop.simps) simp
  qed
qed

lemma spec_join_Cons: "spec_join (f # fs) = f @ concat (map (\<lambda>f. COMMA # f) fs)"
  by (induction fs arbitrary: f) auto

lemma writeCSVLine_eq:
  "writeCSVLine out flds = (if flds = [] then out else out @ spec_join flds @ [LF])"
  by (cases flds) (simp_all add: writeCSVLine_def write_loop_eq spec_join_Cons)

lemma writeCSVLine_append: "writeCSVLine out flds = out @ writeCSVLine [] flds"
  by (simp add: writeCSVLine_eq)

lemma count_commas_spec_join:
  "\<forall>f \<in> set flds. COMMA \<notin> set f \<Longrightarrow> flds \<noteq> [] \<Longrightarrow>
     count_list (spec_join flds) COMMA = length flds - 1"
proof -
  assume a: "\<forall>f \<in> set flds. COMMA \<notin> set f" and ne: "flds \<noteq> []"
  have "\<forall>f \<in> set fs. COMMA \<notin> set f \<Longrightarrow>
          count_list (concat (map (\<lambda>f. COMMA # f) fs)) COMMA = length fs" for fs
    by (induction fs) simp_all
  then show ?thesis using a ne
    by (cases flds) (simp_all add: spec_join_Cons)
qed

section \<open>Properties of the engines\<close>

text \<open>Each engine writes, line by line, what \<open>stream_line\<close> or \<open>mapped_line\<close> gives.\<close>

lemma process_loop_not_good:
  "eofbit input \<or> failbit input \<Longrightarrow> process_loop input line out = Inr out"
  by (subst process_loop.simps) (simp add: getline_def)

lemma process_loop_eq:
  "\<not> eofbit input \<Longrightarrow> \<not> failbit input \<Longrightarrow>
     process_loop input line out
       = Inr (out @ concat (map stream_line (getline_all LF (chars input))))"
proof (induction "length (chars input)" arbitrary: input line out rule: less_induct)
  case less
  let ?r = "dropWhile (\<lambda>c. c \<noteq> LF) (chars input)"
  show ?case
  proof (cases "LF \<in> set (chars input)")
    case True
    then have "?r \<noteq> []" by simp
    then have "length (tl ?r) < length (chars input)"
      using length_dropWhile_le[of "\<lambda>c. c \<noteq> LF" "chars input"] by (cases ?r) auto
    then have "length (chars (input\<lparr>chars := tl ?r\<rparr>)) < length (chars input)" by simp
    from less.hyps[OF this] less.prems
    have "process_loop (input\<lparr>chars := tl ?r\<rparr>) l' o'
            = Inr (o' @ concat (map stream_line (getline_all LF (tl ?r))))" for l' o'
      by simp
    then show ?thesis
      using True less.prems
      by (subst process_loop.simps)
        (simp add: getline_def parseCSVLine_eq getline_all_split stream_line_def
          writeCSVLine_append[of out])
  next
    case False
    show ?thesis
    proof (cases "chars input = []")
      case True
      then show ?thesis using less.prems
        by (subst process_loop.simps) (simp add: getline_def getline_all_Nil)
    next
      case ne: False
      then show ?thesis using less.prems False
        by (subst process_loop.simps)
          (simp add: getline_def parseCSVLine_eq getline_all_single process_loop_not_good
            stream_line_def writeCSVLine_append[of out])
    qed
  qed
qed

lemma streaming_eq:
  "process_loop (istream_on bytes) [] [] = Inr (concat (map stream_line (getline_all LF bytes)))"
  by (simp add: istream_on_def process_loop_eq)

lemma find_from_eq:
  "i \<le> length m \<Longrightarrow>
     find_from m i (length m) c = i + length (takeWhile (\<lambda>x. x \<noteq> c) (drop i m))"
proof (induction m i "length m" c rule: find_from.induct)
  case (1 m first c)
  show ?case
  proof (cases "first < length m")
    case True
    then have d: "drop first m = m ! first # drop (Suc first) m"
      by (simp add: Cons_nth_drop_Suc)
    show ?thesis
    proof (cases "m ! first = c")
      case True
      then show ?thesis using \<open>first < length m\<close> d
        by (subst find_from.simps) simp
    next
      case False
      then show ?thesis using \<open>first < length m\<close> d 1
        by (subst find_from.simps) simp
    qed
  next
    case False
    then show ?thesis using 1(2)
      by (subst find_from.simps) simp
  qed
qed

lemma scan_step:
  assumes lt: "i < length m"
  defines "s \<equiv> drop i m"
  defines "l \<equiv> takeWhile (\<lambda>x. x \<noteq> LF) s"
  shows "scan_loop m i out =
           scan_loop m (if LF \<in> set s then i + length l + 1 else length m) (out @ mapped_line l)"
proof -
  let ?P = "\<lambda>x. x \<noteq> LF"
  let ?n = "length l"
  let ?r = "dropWhile ?P s"
  have sl: "s = l @ ?r" by (simp add: l_def)
  have ls: "length s = length m - i" by (simp add: s_def)
  have nle: "?n \<le> length s" unfolding l_def by (rule length_takeWhile_le)
  have fe: "find_from m i (length m) LF = i + ?n"
    using lt by (simp add: find_from_eq s_def l_def)
  have tk: "take ?n s = l" unfolding l_def by (rule takeWhile_eq_take[symmetric])
  have endiff: "(i + ?n = length m) = (LF \<notin> set s)"
  proof
    assume "i + ?n = length m"
    then have "?n = length s" using ls by simp
    then have "l = s" using tk by simp
    then have "\<forall>x \<in> set s. x \<noteq> LF"
      unfolding l_def by (simp only: takeWhile_eq_all_conv)
    then show "LF \<notin> set s" by auto
  next
    assume "LF \<notin> set s"
    then have "l = s" by (auto simp: l_def)
    then show "i + ?n = length m" using ls lt by simp
  qed
  have lastl: "m ! (i + ?n - 1) = last l" if "0 < ?n"
  proof -
    have "m ! (i + (?n - 1)) = s ! (?n - 1)"
      using lt by (simp add: s_def)
    also have "\<dots> = l ! (?n - 1)"
      using that sl by (metis nth_append diff_less zero_less_one)
    also have "\<dots> = last l"
      using that by (simp add: last_conv_nth)
    finally show ?thesis using that by simp
  qed
  have bl: "take (?n - 1) s = butlast l"
    using nle tk by (metis butlast_take)
  have body: "(if i < i + ?n then
                 (let actualLineEnd =
                        (if i < i + ?n \<and> m ! (i + ?n - 1) = CR then i + ?n - 1 else i + ?n);
                      line = take (actualLineEnd - i) (drop i m)
                  in case parseCSVLine line of
                       Inl e \<Rightarrow> Inl e
                     | Inr flds \<Rightarrow> Inr (writeCSVLine out flds))
               else Inr out) = Inr (out @ mapped_line l)"
  proof (cases "0 < ?n")
    case True
    then have "l \<noteq> []" by simp
    then show ?thesis
      using True lastl[OF True] tk bl
      by (simp add: Let_def parseCSVLine_eq mapped_line_def s_def[symmetric]
          writeCSVLine_append[of out])
  next
    case False
    then show ?thesis by (simp add: mapped_line_def)
  qed
  have "scan_loop m i out =
          (case (if i < i + ?n then
                   (let actualLineEnd =
                          (if i < i + ?n \<and> m ! (i + ?n - 1) = CR then i + ?n - 1 else i + ?n);
                        line = take (actualLineEnd - i) (drop i m)
                    in case parseCSVLine line of
                         Inl e \<Rightarrow> Inl e
                       | Inr flds \<Rightarrow> Inr (writeCSVLine out flds))
                 else Inr out) of
             Inl e \<Rightarrow> Inl e
           | Inr output' \<Rightarrow>
               scan_loop m (if i + ?n = length m then length m else i + ?n + 1) output')"
    by (subst scan_loop.simps) (simp only: lt if_True Let_def fe)
  also have "\<dots> = scan_loop m (if i + ?n = length m then length m else i + ?n + 1)
                        (out @ mapped_line l)"
    unfolding body by simp
  finally show ?thesis using endiff by simp
qed

lemma scan_loop_eq:
  "i \<le> length m \<Longrightarrow>
     scan_loop m i out = Inr (out @ concat (map mapped_line (getline_all LF (drop i m))))"
proof (induction "length m - i" arbitrary: i out rule: less_induct)
  case less
  show ?case
  proof (cases "i < length m")
    case False
    then show ?thesis using less.prems
      by (subst scan_loop.simps) (simp add: getline_all_Nil)
  next
    case True
    let ?s = "drop i m"
    let ?l = "takeWhile (\<lambda>x. x \<noteq> LF) ?s"
    have ne: "?s \<noteq> []" using True by simp
    show ?thesis
    proof (cases "LF \<in> set ?s")
      case False
      have ls: "?l = ?s" using False by auto
      have "scan_loop m (length m) (out @ mapped_line ?s) = Inr (out @ mapped_line ?s)"
        by (subst scan_loop.simps) simp
      then have "scan_loop m i out = Inr (out @ mapped_line ?s)"
        using scan_step[OF True, of out] False unfolding ls by simp
      then show ?thesis
        using False ne by (simp add: getline_all_single)
    next
      case in_s: True
      let ?r = "dropWhile (\<lambda>x. x \<noteq> LF) ?s"
      have rne: "?r \<noteq> []" using in_s by simp
      have "length ?l + length ?r = length m - i"
        by (metis length_append takeWhile_dropWhile_id length_drop)
      moreover have "0 < length ?r" using rne by simp
      ultimately have b: "i + length ?l + 1 \<le> length m" using True by linarith
      have "drop (length ?l) ?s = ?r" by (simp add: dropWhile_eq_drop)
      then have d: "drop (i + length ?l + 1) m = tl ?r"
        by (metis drop_drop add.commute add.assoc drop_Suc tl_drop One_nat_def plus_1_eq_Suc)
      have "length m - (i + length ?l + 1) < length m - i" using True b by simp
      from less.hyps[OF this b, of "out @ mapped_line ?l"] d
      show ?thesis
        using scan_step[OF True, of out] in_s
        by (simp add: getline_all_split)
    qed
  qed
qed

lemma mapped_eq:
  "scan_loop bytes 0 [] = Inr (concat (map mapped_line (getline_all LF bytes)))"
  using scan_loop_eq[of 0 bytes "[]"] by simp

lemma stream_line_Nil: "stream_line [] = []"
  by (simp add: stream_line_def getline_all_Nil writeCSVLine_eq)

lemma mapped_line_Nil: "mapped_line [] = []"
  by (simp add: mapped_line_def)

lemma cr_line_safe_same: "cr_line_safe l \<Longrightarrow> stream_line l = mapped_line l"
proof (cases "l \<noteq> [] \<and> last l = CR")
  case False
  then show ?thesis
    by (cases "l = []")
      (simp_all add: getline_all_Nil writeCSVLine_eq mapped_line_def stream_line_def)
next
  case True
  assume "cr_line_safe l"
  with True have t: "butlast l \<noteq> []" "last (butlast l) \<noteq> COMMA"
    by (simp_all add: cr_line_safe_def)
  from True have "l = butlast l @ [CR]" by (metis append_butlast_last_id)
  then have "map spec_clean (getline_all COMMA l)
               = map spec_clean (getline_all COMMA (butlast l))"
    using clean_getline_all_snoc_CR[OF t] by simp
  then show ?thesis using True
    by (simp add: stream_line_def mapped_line_def)
qed

lemma engines_same_output:
  assumes "cr_lines_safe bytes"
  shows "process_loop (istream_on bytes) [] [] = scan_loop bytes 0 []"
proof -
  have "map stream_line (getline_all LF bytes) = map mapped_line (getline_all LF bytes)"
    using assms by (auto simp: cr_lines_safe_def list_all_iff cr_line_safe_same)
  then show ?thesis by (simp only: streaming_eq mapped_eq)
qed

text \<open>
  Where the engines do agree: on every non-empty input file in which each line that ends
  with a carriage return has, before that carriage return, a non-empty text that does not
  end with a comma. Given that the input can be opened, examined and mapped, that the output
  can be created and that it is another file than the input, both engines then return
  success and leave the same file system behind. Carriage returns elsewhere do no harm.
\<close>

lemma engines_agree:
  assumes "files fs inputPath = Some bytes" and "bytes \<noteq> []"
    and "readable fs inputPath" and "statable fs inputPath" and "mappable fs inputPath"
    and "creatable fs outputPath" and "inputPath \<noteq> outputPath"
    and "cr_lines_safe bytes"
  shows "processFile fs inputPath outputPath = processFileMemoryMapped fs inputPath outputPath
         \<and> returned (processFile fs inputPath outputPath) = Some True
         \<and> (\<exists>out. result_file (processFile fs inputPath outputPath) outputPath = Some out)"
proof -
  let ?out = "concat (map stream_line (getline_all LF bytes))"
  let ?fs1 = "fs\<lparr>files := (files fs)(outputPath \<mapsto> [])\<rparr>"
  have fb: "file_bytes ?fs1 inputPath = bytes"
    using assms(1,7) by (simp add: file_bytes_def)
  have p: "processFile fs inputPath outputPath
             = Inr (True, ?fs1\<lparr>files := (files ?fs1)(outputPath \<mapsto> ?out)\<rparr>)"
    using assms(1,3,6) fb
    by (simp add: processFile_def ifstream_is_open_def ofstream_open_def streaming_eq)
  have "scan_loop bytes 0 [] = Inr ?out"
    using engines_same_output[OF assms(8)] by (simp add: streaming_eq)
  then have m: "processFileMemoryMapped fs inputPath outputPath
             = Inr (True, ?fs1\<lparr>files := (files ?fs1)(outputPath \<mapsto> ?out)\<rparr>)"
    using assms(1-7) by (simp add: processFileMemoryMapped_def ofstream_open_def)
  show ?thesis
    using p m by (simp add: returned_def result_file_def)
qed

lemma engines_agree_example:
  "processFile (single_file_fs ''in.csv'' (''A,-'' @ [CR, LF] @ '',b'' @ [CR, LF]))
      ''in.csv'' ''out.csv''
   = processFileMemoryMapped (single_file_fs ''in.csv'' (''A,-'' @ [CR, LF] @ '',b'' @ [CR, LF]))
      ''in.csv'' ''out.csv''
   \<and> returned (processFile (single_file_fs ''in.csv'' (''A,-'' @ [CR, LF] @ '',b'' @ [CR, LF]))
         ''in.csv'' ''out.csv'') = Some True
   \<and> result_file (processFile (single_file_fs ''in.csv'' (''A,-'' @ [CR, LF] @ '',b'' @ [CR, LF]))
         ''in.csv'' ''out.csv'') ''out.csv'' = Some (''A,0'' @ [LF] @ ''0,b'' @ [LF])"
proof -
  let ?bytes = "''A,-'' @ [CR, LF] @ '',b'' @ [CR, LF]"
  let ?fs = "single_file_fs ''in.csv'' ?bytes"
  have h1: "files ?fs ''in.csv'' = Some ?bytes" by (simp add: single_file_fs_def)
  have h2: "?bytes \<noteq> []" by simp
  have h3: "readable ?fs ''in.csv''" "statable ?fs ''in.csv''" "mappable ?fs ''in.csv''"
    "creatable ?fs ''out.csv''"
    by (simp_all add: single_file_fs_def)
  have h4: "''in.csv'' \<noteq> ''out.csv''" by simp
  have h5: "cr_lines_safe ?bytes" by code_simp
  have r: "result_file (processFile ?fs ''in.csv'' ''out.csv'') ''out.csv''
             = Some (''A,0'' @ [LF] @ ''0,b'' @ [LF])"
    by code_simp
  from engines_agree[OF h1 h2 h3 h4 h5] r show ?thesis by blast
qed

section \<open>The claims\<close>

text \<open>
  Claim C1: for every input file whose contents have no raw carriage return inside a
  field's interior, \<^verbatim>\<open>processFile\<close> and \<^verbatim>\<open>processFileMemoryMapped\<close> produce byte-identical
  output files. The code breaks this on a file with CRLF line ends that has a blank line:
  the streaming engine reads the line that consists of the carriage return alone and writes
  the record "0" for it, while the scan engine strips the carriage return, as its comment
  announces, and writes nothing.
\<close>

theorem engines_differ_on_crlf_blank_line:
  "no_interior_cr (''a'' @ [CR, LF] @ [CR, LF] @ ''b'' @ [CR, LF])
   \<and> result_file
         (processFile (single_file_fs ''in.csv'' (''a'' @ [CR, LF] @ [CR, LF] @ ''b'' @ [CR, LF]))
            ''in.csv'' ''out.csv'') ''out.csv''
       = Some (''a'' @ [LF] @ ''0'' @ [LF] @ ''b'' @ [LF])
   \<and> result_file
         (processFileMemoryMapped
            (single_file_fs ''in.csv'' (''a'' @ [CR, LF] @ [CR, LF] @ ''b'' @ [CR, LF]))
            ''in.csv'' ''out.csv'') ''out.csv''
       = Some (''a'' @ [LF] @ ''b'' @ [LF])"
  by (intro conjI; code_simp)

text \<open>
  Claim C2, as stated: for every line with exactly \<open>k\<close> commas \<^verbatim>\<open>parseCSVLine\<close> returns
  exactly \<open>k + 1\<close> fields. The empty line has no comma and yields no field at all; the
  writer then returns at once, so an empty line gives no record.
\<close>

theorem parseCSVLine_empty_line_no_fields:
  "parseCSVLine [] = Inr []
   \<and> parsed_field_count [] \<noteq> Some (count_list [] COMMA + 1)"
  by (intro conjI; code_simp)

text \<open>
  Claim C2, amended: for every non-empty line that does not end with a comma and has
  exactly \<open>k\<close> commas, \<^verbatim>\<open>parseCSVLine\<close> returns exactly \<open>k + 1\<close> fields (consecutive commas
  and a comma at the start included), and the line written for those fields again has
  exactly \<open>k\<close> commas, hence \<open>k + 1\<close> fields; for the empty line \<^verbatim>\<open>parseCSVLine\<close> returns
  no field and nothing is written.
\<close>

theorem parseCSVLine_field_count:
  "(line \<noteq> [] \<and> last line \<noteq> COMMA \<longrightarrow>
      (\<exists>flds. parseCSVLine line = Inr flds
         \<and> length flds = count_list line COMMA + 1
         \<and> count_list (writeCSVLine [] flds) COMMA = count_list line COMMA))
   \<and> parseCSVLine [] = Inr [] \<and> writeCSVLine out [] = out"
proof (intro conjI impI)
  assume a: "line \<noteq> [] \<and> last line \<noteq> COMMA"
  let ?flds = "map spec_clean (getline_all COMMA line)"
  have len: "length ?flds = count_list line COMMA + 1"
    using a by (simp add: length_getline_all)
  then have ne: "?flds \<noteq> []" by auto
  have "\<forall>f \<in> set ?flds. COMMA \<notin> set f"
    using getline_all_no_delim[of _ COMMA line] spec_clean_no_new_comma by auto
  then have "count_list (spec_join ?flds) COMMA = length ?flds - 1"
    using ne by (rule count_commas_spec_join)
  then have "count_list (writeCSVLine [] ?flds) COMMA = count_list line COMMA"
    using ne len by (simp add: writeCSVLine_eq)
  with len show "\<exists>flds. parseCSVLine line = Inr flds
         \<and> length flds = count_list line COMMA + 1
         \<and> count_list (writeCSVLine [] flds) COMMA = count_list line COMMA"
    by (simp add: parseCSVLine_eq)
next
  show "parseCSVLine [] = Inr []" by (simp add: parseCSVLine_eq getline_all_Nil)
next
  show "writeCSVLine out [] = out" by (simp add: writeCSVLine_eq)
qed

theorem parseCSVLine_field_count_witness:
  "\<exists>flds. parseCSVLine '',a,,b'' = Inr flds \<and> length flds = 4
      \<and> count_list (writeCSVLine [] flds) COMMA = 3"
  using parseCSVLine_field_count[where line = "'',a,,b''" and out = "[]"]
  by (simp add: eval_nat_numeral)

text \<open>
  Claim C3: the input line of two commas produces the output line "0,0,0". In the code the
  third call of \<^verbatim>\<open>std::getline\<close> finds the string stream at its end, extracts nothing and
  fails, so the empty field after the last comma is lost: the record has two fields and
  both engines write "0,0".
\<close>

theorem two_commas_give_two_fields:
  "parseCSVLine '',,'' = Inr [''0'', ''0'']
   \<and> process_loop (istream_on ('',,'' @ [LF])) [] [] = Inr (''0,0'' @ [LF])
   \<and> scan_loop ('',,'' @ [LF]) 0 [] = Inr (''0,0'' @ [LF])"
  by (intro conjI; code_simp)

text \<open>
  Claim C4, as stated: for an entirely blank line between two data lines the scan engine
  writes nothing while the streaming engine writes the line "0". The streaming engine
  writes nothing either: the blank line parses to no field, and the writer returns at once.
\<close>

theorem streaming_skips_blank_line:
  "process_loop (istream_on (''a,b'' @ [LF] @ [LF] @ ''c,d'' @ [LF])) [] []
     = Inr (''a,b'' @ [LF] @ ''c,d'' @ [LF])
   \<and> scan_loop (''a,b'' @ [LF] @ [LF] @ ''c,d'' @ [LF]) 0 []
     = Inr (''a,b'' @ [LF] @ ''c,d'' @ [LF])"
  by (intro conjI; code_simp)

text \<open>
  Claim C4, amended: an entirely blank line (no byte before its newline) yields no output
  line in either engine: \<^verbatim>\<open>parseCSVLine\<close> returns no field for it, and the output for the
  lines before it, the blank line and the bytes after it is the output for the lines before
  it followed by the output for the bytes after it.
\<close>

theorem blank_line_skipped_by_both:
  assumes "pre = [] \<or> last pre = LF"
  shows "parseCSVLine [] = Inr []
         \<and> (\<exists>a b. process_loop (istream_on pre) [] [] = Inr a
               \<and> process_loop (istream_on post) [] [] = Inr b
               \<and> process_loop (istream_on (pre @ LF # post)) [] [] = Inr (a @ b))
         \<and> (\<exists>a b. scan_loop pre 0 [] = Inr a
               \<and> scan_loop post 0 [] = Inr b
               \<and> scan_loop (pre @ LF # post) 0 [] = Inr (a @ b))"
proof -
  have "getline_all LF (pre @ LF # post) = getline_all LF pre @ getline_all LF (LF # post)"
    using assms by (rule getline_all_append)
  also have "getline_all LF (LF # post) = [] # getline_all LF post"
    using getline_all_Cons[of LF "[]" post] by simp
  finally have "getline_all LF (pre @ LF # post)
                  = getline_all LF pre @ [] # getline_all LF post" .
  then show ?thesis
    by (simp add: streaming_eq mapped_eq parseCSVLine_eq getline_all_Nil
        stream_line_Nil mapped_line_Nil)
qed

theorem blank_line_skipped_by_both_witness:
  "process_loop (istream_on ((''a,-'' @ [LF]) @ LF # (''c,d'' @ [LF]))) [] []
     = Inr (''a,0'' @ [LF] @ ''c,d'' @ [LF])
   \<and> scan_loop ((''a,-'' @ [LF]) @ LF # (''c,d'' @ [LF])) 0 []
     = Inr (''a,0'' @ [LF] @ ''c,d'' @ [LF])"
proof -
  have h: "''a,-'' @ [LF] = [] \<or> last (''a,-'' @ [LF]) = LF" by simp
  have e: "process_loop (istream_on (''a,-'' @ [LF])) [] [] = Inr (''a,0'' @ [LF])"
    "process_loop (istream_on (''c,d'' @ [LF])) [] [] = Inr (''c,d'' @ [LF])"
    "scan_loop (''a,-'' @ [LF]) 0 [] = Inr (''a,0'' @ [LF])"
    "scan_loop (''c,d'' @ [LF]) 0 [] = Inr (''c,d'' @ [LF])"
    by code_simp+
  from blank_line_skipped_by_both[OF h, of "''c,d'' @ [LF]"] e show ?thesis
    by auto
qed

text \<open>
  Claim C5, as stated: \<^verbatim>\<open>cleanField\<close> is idempotent. It is not: quotes are stripped once
  and the text between them is not trimmed, so a quoted value with blanks inside the quotes
  is changed again by a second pass.
\<close>

theorem cleanField_not_idempotent:
  "cleanField ([QUOTE] @ '' 12 '' @ [QUOTE]) = Inr '' 12 ''
   \<and> cleanField_twice ([QUOTE] @ '' 12 '' @ [QUOTE]) = Inr ''12''
   \<and> cleanField_twice ([QUOTE] @ '' 12 '' @ [QUOTE]) \<noteq> cleanField ([QUOTE] @ '' 12 '' @ [QUOTE])"
  by (intro conjI; code_simp)

text \<open>
  Claim C5, amended: a second pass of \<^verbatim>\<open>cleanField\<close> leaves the result \<open>c\<close> of the first
  unchanged exactly when \<open>c\<close> neither starts nor ends with a space, tab, carriage return or
  newline and is not itself enclosed in double quotes; in particular \<^verbatim>\<open>cleanField\<close> is
  idempotent on every field whose trimmed text is not enclosed in double quotes.
\<close>

theorem cleanField_idempotent_iff:
  "(cleanField f = Inr c \<longrightarrow> (cleanField_twice f = cleanField f) = clean_stable c)
   \<and> (trim f = Inr t \<and> \<not> spec_quoted t \<longrightarrow> cleanField_twice f = cleanField f)"
proof (intro conjI impI)
  assume "cleanField f = Inr c"
  then show "(cleanField_twice f = cleanField f) = clean_stable c"
    by (rule cleanField_twice_iff)
next
  assume "trim f = Inr t \<and> \<not> spec_quoted t"
  then have nq: "\<not> spec_quoted (spec_trim f)" by (simp add: trim_eq)
  have "clean_stable (spec_clean f)"
  proof (cases "spec_clean f = ''0''")
    case True
    then show ?thesis by (simp add: clean_stable_zero)
  next
    case False
    then have "spec_clean f = spec_trim f" "spec_trim f \<noteq> []"
      using spec_clean_cases[of f] nq by (auto simp: spec_unquote_def)
    then show ?thesis
      using nq spec_trim_ends[of f] by (simp add: clean_stable_def)
  qed
  then show "cleanField_twice f = cleanField f"
    using cleanField_twice_iff[of f "spec_clean f"] by (simp add: cleanField_eq)
qed

theorem cleanField_idempotent_iff_witness:
  "cleanField ([QUOTE] @ ''abc'' @ [QUOTE]) = Inr ''abc'' \<and> clean_stable ''abc''
   \<and> cleanField_twice ([QUOTE] @ ''abc'' @ [QUOTE]) = cleanField ([QUOTE] @ ''abc'' @ [QUOTE])
   \<and> trim '' 7.5 '' = Inr ''7.5'' \<and> \<not> spec_quoted ''7.5''
   \<and> cleanField_twice '' 7.5 '' = cleanField '' 7.5 ''"
proof -
  have h1: "cleanField ([QUOTE] @ ''abc'' @ [QUOTE]) = Inr ''abc''" by code_simp
  have h2: "clean_stable ''abc''" by code_simp
  have h3: "trim '' 7.5 '' = Inr ''7.5''" by code_simp
  have h4: "\<not> spec_quoted ''7.5''" by code_simp
  from cleanField_idempotent_iff[where f = "[QUOTE] @ ''abc'' @ [QUOTE]" and c = "''abc''"]
    cleanField_idempotent_iff[where f = "'' 7.5 ''" and t = "''7.5''"]
    h1 h2 h3 h4
  show ?thesis by blast
qed

text \<open>
  Claim C6: for every string \<open>f\<close>, \<^verbatim>\<open>cleanField\<close> returns, without throwing, the result of
  the four-step algorithm of the specification (trim space, tab, carriage return and newline
  at both ends; strip one enclosing pair of double quotes if the trimmed text has length at
  least 2; return "0" if what is left is empty, all whitespace, "-" or "--"; otherwise
  return it unchanged). In particular the empty string, three spaces, "-" and "--" are
  mapped to "0", the text abc enclosed in double quotes (five characters) to abc, and two
  double quotes to "0".
\<close>

theorem cleanField_is_spec_clean:
  "cleanField f = Inr (spec_clean f)
   \<and> cleanField [] = Inr ''0'' \<and> cleanField ''   '' = Inr ''0''
   \<and> cleanField ''-'' = Inr ''0'' \<and> cleanField ''--'' = Inr ''0''
   \<and> cleanField ([QUOTE] @ ''abc'' @ [QUOTE]) = Inr ''abc''
   \<and> cleanField [QUOTE, QUOTE] = Inr ''0''"
  by (intro conjI cleanField_eq cleanField_examples)

theorem cleanField_is_spec_clean_witness:
  "cleanField (''  '' @ [QUOTE] @ ''12.5'' @ [QUOTE, CR]) = Inr ''12.5''"
proof -
  have "spec_clean (''  '' @ [QUOTE] @ ''12.5'' @ [QUOTE, CR]) = ''12.5''"
    by (simp add: spec_clean_def spec_trim_def spec_trim_char_def
        spec_unquote_def spec_quoted_def spec_whitespace_def)
  with cleanField_is_spec_clean[of "''  '' @ [QUOTE] @ ''12.5'' @ [QUOTE, CR]"]
  show ?thesis by simp
qed

text \<open>
  Claim C7: for every non-empty sequence of fields, \<^verbatim>\<open>writeCSVLine\<close> appends to the output
  exactly the fields joined with commas, followed by a single newline; for the empty
  sequence it appends nothing, not even a newline.
\<close>

theorem writeCSVLine_joins:
  "(flds \<noteq> [] \<longrightarrow> writeCSVLine out flds = out @ spec_join flds @ [LF])
   \<and> writeCSVLine out [] = out"
  by (simp add: writeCSVLine_eq)

theorem writeCSVLine_joins_witness:
  "writeCSVLine ''h'' [''A'', ''0'', ''x y''] = ''h'' @ ''A,0,x y'' @ [LF]
   \<and> writeCSVLine ''h'' [] = ''h''"
  using writeCSVLine_joins[of "[''A'', ''0'', ''x y'']" "''h''"] by simp

text \<open>
  Claim C8: \<^verbatim>\<open>processFile\<close> returns failure if and only if the input file cannot be opened
  or the output file cannot be created; once both are open it returns success (and does
  not throw); and when the input path does not exist it returns failure and leaves the
  file system as it was, so no output file is created.
\<close>

theorem processFile_result:
  "(returned (processFile fs inputPath outputPath) = Some False
      \<longleftrightarrow> \<not> ifstream_is_open fs inputPath \<or> \<not> creatable fs outputPath)
   \<and> (ifstream_is_open fs inputPath \<and> creatable fs outputPath
      \<longrightarrow> returned (processFile fs inputPath outputPath) = Some True)
   \<and> (files fs inputPath = None \<longrightarrow> processFile fs inputPath outputPath = Inr (False, fs))"
  by (simp add: processFile_def ofstream_open_def returned_def streaming_eq
      ifstream_is_open_def)

theorem processFile_result_witness:
  "returned (processFile (single_file_fs ''in.csv'' ''x,-'') ''in.csv'' ''out.csv'') = Some True
   \<and> processFile (single_file_fs ''in.csv'' ''x,-'') ''other.csv'' ''out.csv''
       = Inr (False, single_file_fs ''in.csv'' ''x,-'')
   \<and> returned (processFile (single_file_fs ''in.csv'' ''x,-'') ''other.csv'' ''out.csv'')
       = Some False"
proof -
  let ?fs = "single_file_fs ''in.csv'' ''x,-''"
  have h1: "ifstream_is_open ?fs ''in.csv'' \<and> creatable ?fs ''out.csv''"
    by (simp add: single_file_fs_def ifstream_is_open_def)
  have h2: "files ?fs ''other.csv'' = None"
    by (simp add: single_file_fs_def)
  have h3: "\<not> ifstream_is_open ?fs ''other.csv''"
    by (simp add: single_file_fs_def ifstream_is_open_def)
  from processFile_result[where fs = ?fs and inputPath = "''in.csv''" and outputPath = "''out.csv''"]
    processFile_result[where fs = ?fs and inputPath = "''other.csv''" and outputPath = "''out.csv''"]
    h1 h2 h3
  show ?thesis by blast
qed

text \<open>
  Claim C9: a non-empty final line without a newline at the end of the file is handled by
  both engines as a complete line: it is parsed and cleaned by \<^verbatim>\<open>parseCSVLine\<close> (the scan
  engine first drops a final carriage return) and written by \<^verbatim>\<open>writeCSVLine\<close> after the
  output for the lines before it, exactly as if the newline were there, and the loop ends
  without an exception.
\<close>

theorem truncated_final_line:
  assumes "pre = [] \<or> last pre = LF" and "l \<noteq> []" and "LF \<notin> set l"
  shows "(\<exists>outp flds. process_loop (istream_on pre) [] [] = Inr outp
            \<and> parseCSVLine l = Inr flds
            \<and> process_loop (istream_on (pre @ l)) [] [] = Inr (writeCSVLine outp flds)
            \<and> process_loop (istream_on (pre @ l @ [LF])) [] [] = Inr (writeCSVLine outp flds))
         \<and> (\<exists>outp flds. scan_loop pre 0 [] = Inr outp
            \<and> parseCSVLine (if last l = CR then butlast l else l) = Inr flds
            \<and> scan_loop (pre @ l) 0 [] = Inr (writeCSVLine outp flds)
            \<and> scan_loop (pre @ l @ [LF]) 0 [] = Inr (writeCSVLine outp flds))"
proof -
  have g1: "getline_all LF (pre @ l) = getline_all LF pre @ [l]"
    using getline_all_append[OF assms(1), of l] assms(2,3) by (simp add: getline_all_single)
  have "getline_all LF (l @ [LF]) = [l]"
    using getline_all_Cons[OF assms(3), of "[]"] by (simp add: getline_all_Nil)
  then have g2: "getline_all LF (pre @ l @ [LF]) = getline_all LF pre @ [l]"
    using getline_all_append[OF assms(1), of "l @ [LF]"] by simp
  have s: "stream_line l = writeCSVLine [] (map spec_clean (getline_all COMMA l))"
    by (simp add: stream_line_def)
  have m: "mapped_line l = writeCSVLine []
             (map spec_clean (getline_all COMMA (if last l = CR then butlast l else l)))"
    using assms(2) by (simp add: mapped_line_def)
  have "\<exists>outp flds. process_loop (istream_on pre) [] [] = Inr outp
            \<and> parseCSVLine l = Inr flds
            \<and> process_loop (istream_on (pre @ l)) [] [] = Inr (writeCSVLine outp flds)
            \<and> process_loop (istream_on (pre @ l @ [LF])) [] [] = Inr (writeCSVLine outp flds)"
    using s by (simp only: streaming_eq parseCSVLine_eq g1 g2)
      (simp add: writeCSVLine_append[of "concat (map stream_line (getline_all LF pre))"])
  moreover have "\<exists>outp flds. scan_loop pre 0 [] = Inr outp
            \<and> parseCSVLine (if last l = CR then butlast l else l) = Inr flds
            \<and> scan_loop (pre @ l) 0 [] = Inr (writeCSVLine outp flds)
            \<and> scan_loop (pre @ l @ [LF]) 0 [] = Inr (writeCSVLine outp flds)"
    using m by (simp only: mapped_eq parseCSVLine_eq g1 g2)
      (simp add: writeCSVLine_append[of "concat (map mapped_line (getline_all LF pre))"])
  ultimately show ?thesis by simp
qed

theorem truncated_final_line_witness:
  "process_loop (istream_on ((''h1,h2'' @ [LF]) @ ''1,-'')) [] []
     = Inr (''h1,h2'' @ [LF] @ ''1,0'' @ [LF])
   \<and> scan_loop ((''h1,h2'' @ [LF]) @ ''1,-'') 0 [] = Inr (''h1,h2'' @ [LF] @ ''1,0'' @ [LF])"
proof -
  have h1: "''h1,h2'' @ [LF] = [] \<or> last (''h1,h2'' @ [LF]) = LF" by simp
  have h2: "''1,-'' \<noteq> []" by simp
  have h3: "LF \<notin> set ''1,-''" by simp
  have e: "process_loop (istream_on (''h1,h2'' @ [LF])) [] [] = Inr (''h1,h2'' @ [LF])"
    "scan_loop (''h1,h2'' @ [LF]) 0 [] = Inr (''h1,h2'' @ [LF])"
    "parseCSVLine ''1,-'' = Inr [''1'', ''0'']"
    by code_simp+
  have w: "writeCSVLine (''h1,h2'' @ [LF]) [''1'', ''0''] = ''h1,h2'' @ [LF] @ ''1,0'' @ [LF]"
    by code_simp
  from truncated_final_line[OF h1 h2 h3] e w show ?thesis
    by auto
qed

text \<open>
  Claim C10: for every string \<open>s\<close>, \<^verbatim>\<open>cleanField\<close> returns a non-empty string;
  consequently no field of a parsed record, and so no field written to the output, is the
  empty string.
\<close>

theorem cleanField_nonempty:
  "(\<exists>c. cleanField s = Inr c \<and> c \<noteq> [])
   \<and> (\<exists>flds. parseCSVLine line = Inr flds \<and> [] \<notin> set flds)"
proof -
  have "[] \<notin> set (map spec_clean (getline_all COMMA line))"
    using spec_clean_nonempty by auto metis
  then show ?thesis
    by (simp add: cleanField_eq parseCSVLine_eq spec_clean_nonempty)
qed

theorem cleanField_nonempty_witness:
  "(\<exists>c. cleanField '' - '' = Inr c \<and> c \<noteq> [])
   \<and> (\<exists>flds. parseCSVLine '',a,,'' = Inr flds \<and> [] \<notin> set flds)"
  by (rule cleanField_nonempty[of "'' - ''" "'',a,,''"])

end
